theory Spec2Isabelle
  imports Complex_Main "HOL-Library.Code_Target_Nat"
begin

section \<open>JavaScript values used by the jukebox page\<close>

text \<open>
  A JavaScript string is a sequence of UTF-16 code units; a code unit is modelled by its
  numeric value.  \<open>str\<close> turns an ASCII literal into such a sequence.
\<close>

type_synonym jsstring = "nat list"

definition str :: "string \<Rightarrow> jsstring" where
  "str s = map of_char s"

text \<open>
  A JavaScript number is a double.  The model keeps the three kinds of value that the
  page's comparisons distinguish: \<open>NaN\<close>, the two infinities and the finite values; a
  finite value is kept as an exact rational (the rounding of a double and the sign of
  zero are not modelled; the page only compares, clamps, adds one and divides two small
  counts).
\<close>

datatype jsnum = NaN | NegInf | Fin rat | PosInf

text \<open>The relational operators \<open><\<close> and \<open>>=\<close> on numbers: every comparison with \<open>NaN\<close> is false.\<close>

fun jsLess :: "jsnum \<Rightarrow> jsnum \<Rightarrow> bool" where
  "jsLess NaN _ = False"
| "jsLess _ NaN = False"
| "jsLess _ NegInf = False"
| "jsLess NegInf _ = True"
| "jsLess PosInf _ = False"
| "jsLess (Fin a) (Fin b) = (a < b)"
| "jsLess (Fin a) PosInf = True"

fun jsGreaterEq :: "jsnum \<Rightarrow> jsnum \<Rightarrow> bool" where
  "jsGreaterEq NaN _ = False"
| "jsGreaterEq _ NaN = False"
| "jsGreaterEq a b = (\<not> jsLess a b)"

text \<open>\<open>Math.max\<close> and \<open>Math.min\<close> of two arguments: \<open>NaN\<close> if either argument is \<open>NaN\<close>.\<close>

definition mathMax :: "jsnum \<Rightarrow> jsnum \<Rightarrow> jsnum" where
  "mathMax a b = (if a = NaN \<or> b = NaN then NaN else if jsLess a b then b else a)"

definition mathMin :: "jsnum \<Rightarrow> jsnum \<Rightarrow> jsnum" where
  "mathMin a b = (if a = NaN \<or> b = NaN then NaN else if jsLess b a then b else a)"

text \<open>The primitive values a field of an album can hold (a missing field reads as \<open>undefined\<close>).\<close>

datatype jsval = JUndefined | JNull | JBool bool | JNum jsnum | JStr jsstring

text \<open>Truthiness, as \<open>||\<close> and \<open>!\<close> test it.\<close>

fun truthy :: "jsval \<Rightarrow> bool" where
  "truthy JUndefined = False"
| "truthy JNull = False"
| "truthy (JBool b) = b"
| "truthy (JNum NaN) = False"
| "truthy (JNum (Fin r)) = (r \<noteq> 0)"
| "truthy (JNum _) = True"
| "truthy (JStr s) = (s \<noteq> [])"

definition jsOr :: "jsval \<Rightarrow> jsval \<Rightarrow> jsval" where
  "jsOr a b = (if truthy a then a else b)"

text \<open>
  The built-in functions of the platform whose result depends on the ECMAScript number
  grammar or on the Unicode character database.  They are not code of the page, so the
  functions of the page take them as a parameter.
  \<^item> \<open>StringToNumber\<close>: what \<open>Number\<close> returns on a string;
  \<^item> \<open>toLowerCase\<close>: \<open>String.prototype.toLowerCase\<close>;
  \<^item> \<open>normalizeNFKD\<close>: \<open>String.prototype.normalize('NFKD')\<close>;
  \<^item> \<open>stripDiacritic\<close>: \<open>.replace(/\p{Diacritic}/gu, '')\<close>, the removal of every code
    point with the Unicode property Diacritic.
\<close>

record builtins =
  StringToNumber :: "jsstring \<Rightarrow> jsnum"
  toLowerCase :: "jsstring \<Rightarrow> jsstring"
  normalizeNFKD :: "jsstring \<Rightarrow> jsstring"
  stripDiacritic :: "jsstring \<Rightarrow> jsstring"

text \<open>\<open>Number(v)\<close> on a primitive value.\<close>

fun Number :: "builtins \<Rightarrow> jsval \<Rightarrow> jsnum" where
  "Number B JUndefined = NaN"
| "Number B JNull = Fin 0"
| "Number B (JBool b) = Fin (if b then 1 else 0)"
| "Number B (JNum x) = x"
| "Number B (JStr s) = StringToNumber B s"

text \<open>
  A JavaScript array of values of type \<open>'a\<close>: an element that was never written (a
  hole, or an index past the end) reads as \<open>undefined\<close>, here \<open>None\<close>; a write past the
  end extends the array.
\<close>

type_synonym 'a jsarray = "'a option list"

definition arrayGet :: "'a jsarray \<Rightarrow> nat \<Rightarrow> 'a option" where
  "arrayGet xs k = (if k < length xs then xs ! k else None)"

definition arraySet :: "'a jsarray \<Rightarrow> nat \<Rightarrow> 'a \<Rightarrow> 'a jsarray" where
  "arraySet xs k v =
     (if k < length xs then xs[k := Some v]
      else xs @ replicate (k - length xs) None @ [Some v])"

section \<open>The slot map\<close>

definition MAX_SLOTS :: nat where
  "MAX_SLOTS = 100"

text \<open>
  An album of \<open>window.albums\<close>.  Every element of the array is an object; only its
  \<open>discs\<close> field is read by the slot map.
\<close>

record album =
  discs :: jsval

text \<open>\<open>Math.min(2, Math.max(1, Number(albums[i]?.discs||1)))\<close>\<close>

definition discsCount :: "builtins \<Rightarrow> album \<Rightarrow> jsnum" where
  "discsCount B a =
     mathMin (Fin 2) (mathMax (Fin 1) (Number B (jsOr (discs a) (JNum (Fin 1)))))"

text \<open>The two maps: slot to album index, album index to first slot.\<close>

record maps =
  slotToAlbum :: "int jsarray"
  albumStartSlot :: "nat jsarray"

text \<open>
  The inner loop \<open>for (let j=0; j<discs && slot<=MAX_SLOTS; j++) slotToAlbum[slot++] = i\<close>,
  on the array and the cursor \<open>slot\<close>.
\<close>

function discLoop :: "jsnum \<Rightarrow> nat \<Rightarrow> nat \<Rightarrow> int jsarray \<times> nat \<Rightarrow> int jsarray \<times> nat" where
  "discLoop d i j (sta, slot) =
     (if jsLess (Fin (of_nat j)) d \<and> slot \<le> MAX_SLOTS
      then discLoop d i (j + 1) (arraySet sta slot (int i), slot + 1)
      else (sta, slot))"
  by pat_completeness auto
termination
  by (relation "measure (\<lambda>(d, i, j, sta, slot). MAX_SLOTS + 1 - slot)") auto

declare discLoop.simps [simp del]

text \<open>The outer loop \<open>for (let i=0; i<albums.length; i++)\<close>.\<close>

function albumLoop :: "builtins \<Rightarrow> album list \<Rightarrow> nat \<Rightarrow> maps \<times> nat \<Rightarrow> maps \<times> nat" where
  "albumLoop B albums i (m, slot) =
     (if i < length albums
      then (let d = discsCount B (albums ! i);
                start = arraySet (albumStartSlot m) i slot;
                (sta, slot') = discLoop d i 0 (slotToAlbum m, slot)
            in albumLoop B albums (i + 1)
                 (\<lparr>slotToAlbum = sta, albumStartSlot = start\<rparr>, slot'))
      else (m, slot))"
  by pat_completeness auto
termination
  by (relation "measure (\<lambda>(B, albums, i, st). length albums - i)") auto

declare albumLoop.simps [simp del]

text \<open>
  The construction of the page: both arrays are allocated and filled (\<open>-1\<close> and \<open>0\<close>), the
  cursor starts at 1, and the loop runs over every album.
\<close>

definition initMaps :: "album list \<Rightarrow> maps" where
  "initMaps albums =
     \<lparr>slotToAlbum = replicate (MAX_SLOTS + 1) (Some (- 1)),
      albumStartSlot = replicate (length albums) (Some 0)\<rparr>"

definition computeMaps :: "builtins \<Rightarrow> album list \<Rightarrow> maps" where
  "computeMaps B albums = fst (albumLoop B albums 0 (initMaps albums, 1))"

text \<open>
  The click handler of the jump button, from the parsed input \<open>n\<close> on (\<open>n\<close> is what
  \<open>parseInt\<close> returned: an integer or \<open>NaN\<close>).  The result is the slide the carousel is
  sent to, or \<open>None\<close> when the handler only marks the input field red.
\<close>

fun isFinite :: "jsnum \<Rightarrow> bool" where
  "isFinite (Fin r) = True"
| "isFinite _ = False"

text \<open>
  Reading an array at a number: only an index that is a non-negative integer names an
  element; every other property key is absent and reads as \<open>undefined\<close>.
\<close>

fun arrayGetNum :: "'a jsarray \<Rightarrow> jsnum \<Rightarrow> 'a option" where
  "arrayGetNum xs (Fin r) =
     (if 0 \<le> r \<and> r = of_int \<lfloor>r\<rfloor> then arrayGet xs (nat \<lfloor>r\<rfloor>) else None)"
| "arrayGetNum xs _ = None"

definition goBtnClick :: "maps \<Rightarrow> jsnum \<Rightarrow> int option" where
  "goBtnClick m n =
     (if \<not> isFinite n \<or> jsLess n (Fin 1) \<or> jsLess (Fin (of_nat MAX_SLOTS)) n then None
      else (case arrayGetNum (slotToAlbum m) n of
              None \<Rightarrow> None
            | Some pos \<Rightarrow> if pos \<ge> 0 then Some pos else None))"

section \<open>The song search\<close>

text \<open>
  An entry of \<open>SONGS\<close> as the loader leaves it: the title is a string, \<open>albumIndex\<close> a
  number and \<open>disc\<close> a number or \<open>null\<close> (\<open>None\<close>).
\<close>

record song =
  n :: jsstring
  albumIndex :: jsnum
  disc :: "jsnum option"

text \<open>The regular-expression class \<open>\s\<close>, which is also what \<open>trim\<close> removes.\<close>

definition isWhiteSpace :: "nat \<Rightarrow> bool" where
  "isWhiteSpace c \<longleftrightarrow>
     c \<in> {0x09, 0x0A, 0x0B, 0x0C, 0x0D, 0x20, 0xA0, 0x1680, 0x2028, 0x2029,
          0x202F, 0x205F, 0x3000, 0xFEFF} \<or> (0x2000 \<le> c \<and> c \<le> 0x200A)"

text \<open>The class \<open>[a-z0-9 ]\<close>.\<close>

definition isPlain :: "nat \<Rightarrow> bool" where
  "isPlain c \<longleftrightarrow> (0x61 \<le> c \<and> c \<le> 0x7A) \<or> (0x30 \<le> c \<and> c \<le> 0x39) \<or> c = 0x20"

text \<open>\<open>.replace(/[^a-z0-9 ]/g, ' ')\<close>\<close>

definition replacePunct :: "jsstring \<Rightarrow> jsstring" where
  "replacePunct s = map (\<lambda>c. if isPlain c then c else 0x20) s"

text \<open>\<open>.replace(/\s+/g, ' ')\<close>: every maximal run of white space becomes one space.\<close>

function collapseSpace :: "jsstring \<Rightarrow> jsstring" where
  "collapseSpace [] = []"
| "collapseSpace (c # cs) =
     (if isWhiteSpace c then 0x20 # collapseSpace (dropWhile isWhiteSpace cs)
      else c # collapseSpace cs)"
  by pat_completeness auto
termination
  by (relation "measure length") (auto simp: le_imp_less_Suc length_dropWhile_le)

text \<open>\<open>.trim()\<close>\<close>

definition trim :: "jsstring \<Rightarrow> jsstring" where
  "trim s = rev (dropWhile isWhiteSpace (rev (dropWhile isWhiteSpace s)))"

text \<open>
  \<open>norm\<close>.  Its argument is a string here, on which \<open>String(s || '')\<close> is the identity.
\<close>

definition norm :: "builtins \<Rightarrow> jsstring \<Rightarrow> jsstring" where
  "norm B s =
     trim (collapseSpace (replacePunct
       (stripDiacritic B (normalizeNFKD B (toLowerCase B s)))))"

text \<open>\<open>c.startsWith(q)\<close> and \<open>c.includes(q)\<close> (\<open>q\<close> occurs in \<open>c\<close> as a contiguous run).\<close>

fun startsWith :: "jsstring \<Rightarrow> jsstring \<Rightarrow> bool" where
  "startsWith c [] = True"
| "startsWith [] (y # ys) = False"
| "startsWith (x # xs) (y # ys) = (x = y \<and> startsWith xs ys)"

fun includes_str :: "jsstring \<Rightarrow> jsstring \<Rightarrow> bool" where
  "includes_str [] q = (q = [])"
| "includes_str (x # xs) q = (startsWith (x # xs) q \<or> includes_str xs q)"

text \<open>\<open>s.split(' ')\<close>: the pieces between the spaces; the empty string gives one empty piece.\<close>

fun split :: "jsstring \<Rightarrow> jsstring list" where
  "split [] = [[]]"
| "split (c # cs) =
     (if c = 0x20 then [] # split cs
      else (case split cs of [] \<Rightarrow> [[c]] | t # ts \<Rightarrow> (c # t) # ts))"

text \<open>
  \<open>new Set(xs)\<close>: the elements of \<open>xs\<close> in the order of their first occurrence, each
  once.  \<open>has\<close> is membership and \<open>size\<close> is the length.
\<close>

definition setAdd :: "'a list \<Rightarrow> 'a \<Rightarrow> 'a list" where
  "setAdd S x = (if x \<in> set S then S else S @ [x])"

definition newSet :: "'a list \<Rightarrow> 'a list" where
  "newSet xs = foldl setAdd [] xs"

text \<open>
  \<open>fuzzyScore\<close>.  The page computes the score in doubles: the quotient \<open>inter / union\<close>
  and each sum are rounded.  The definition returns the exact value of the same
  expression; it is the value of the page wherever no rounding occurs (0, 3, a quotient
  that is a double, such as 1, and the sums of such values with 1 and 0.25).
\<close>

definition fuzzyScore :: "builtins \<Rightarrow> jsstring \<Rightarrow> jsstring \<Rightarrow> rat" where
  "fuzzyScore B query candidate =
     (let q = norm B query; c = norm B candidate
      in if q = [] \<or> c = [] then 0
         else if q = c then 3
         else
           (let score0 = (if includes_str c q \<or> includes_str q c then 1 else 0);
                tq = newSet (split q);
                tc = newSet (split c);
                inter = length (filter (\<lambda>t. t \<in> set tc) tq);
                union = (let u = length (newSet (tq @ tc)) in if u = 0 then 1 else u);
                score1 = score0 + of_nat inter / of_nat union
            in if startsWith c q then score1 + 1 / 4 else score1))"

text \<open>
  \<open>findBestSong\<close>, with the global \<open>SONGS\<close> as an argument.  The title of an entry is a
  string, on which \<open>s?.n || ''\<close> is the identity.  The loop and the final test are
  written once, for the score function and the cut-off given as arguments, so that what
  is proved of them holds of the values the page computes in doubles as well:
  \<open>bestStep\<close> is the body of the loop, \<open>findBestSongWith\<close> the function.
  \<open>findBestSong\<close> is the function with \<open>fuzzyScore\<close> and the cut-off 0.15.
\<close>

definition bestStep ::
  "(jsstring \<Rightarrow> jsstring \<Rightarrow> rat) \<Rightarrow> jsstring \<Rightarrow> song option \<times> rat \<Rightarrow> song \<Rightarrow> song option \<times> rat" where
  "bestStep score query acc s =
     (let sc = score query (n s)
      in if sc > snd acc then (Some s, sc) else acc)"

definition findBestSongWith ::
  "(jsstring \<Rightarrow> jsstring \<Rightarrow> rat) \<Rightarrow> rat \<Rightarrow> song list \<Rightarrow> jsstring \<Rightarrow> song option" where
  "findBestSongWith score cutoff SONGS query =
     (let (best, bestScore) = foldl (bestStep score query) (None, 0) SONGS
      in if bestScore > cutoff then best else None)"

definition findBestSong :: "builtins \<Rightarrow> song list \<Rightarrow> jsstring \<Rightarrow> song option" where
  "findBestSong B SONGS query = findBestSongWith (fuzzyScore B) (15 / 100) SONGS query"

text \<open>
  \<open>computePlatzForSong\<close>, with the globals \<open>albums\<close> and \<open>albumStartSlot\<close> as arguments.
  \<open>albumIndex\<close> is a number already, so \<open>Number(song?.albumIndex ?? -1)\<close> is the field itself.
  A \<open>slot\<close> of \<open>None\<close> is \<open>null\<close>.
\<close>

record platz =
  slot :: "nat option"
  approx :: bool

definition computePlatzForSong :: "builtins \<Rightarrow> album list \<Rightarrow> maps \<Rightarrow> song \<Rightarrow> platz" where
  "computePlatzForSong B albums m sg =
     (let i = albumIndex sg
      in if \<not> jsGreaterEq i (Fin 0) then \<lparr>slot = None, approx = False\<rparr>
         else (case arrayGetNum (map Some albums) i of
             None \<Rightarrow> \<lparr>slot = None, approx = False\<rparr>
           | Some a \<Rightarrow>
              (let start = (case arrayGetNum (albumStartSlot m) i of None \<Rightarrow> 0 | Some v \<Rightarrow> v);
                   dc = discsCount B a;
                   d = disc sg
               in if d = Some (Fin 1) then \<lparr>slot = Some start, approx = False\<rparr>
                  else if d = Some (Fin 2) then
                    (if jsGreaterEq dc (Fin 2)
                     then \<lparr>slot = Some (min (start + 1) MAX_SLOTS), approx = False\<rparr>
                     else \<lparr>slot = Some start, approx = True\<rparr>)
                  else if dc = Fin 1 then \<lparr>slot = Some start, approx = False\<rparr>
                  else \<lparr>slot = Some start, approx = True\<rparr>)))"

section \<open>The built-ins on ASCII strings\<close>

text \<open>
  An instance of the built-ins for evaluating the page's functions at concrete inputs.
  It agrees with the platform on strings whose code units are all below 128: there
  lower-casing only maps \<open>A\<close>..\<open>Z\<close>, NFKD changes nothing, and the code points with the
  property Diacritic are \<open>^\<close> and the grave accent.  \<open>parseNumber\<close> follows the grammar
  StringNumericLiteral of ECMAScript and returns the exact decimal value.
\<close>

definition isDigit :: "nat \<Rightarrow> bool" where
  "isDigit c \<longleftrightarrow> 0x30 \<le> c \<and> c \<le> 0x39"

definition digitValue :: "nat \<Rightarrow> nat" where
  "digitValue c =
     (if isDigit c then c - 0x30
      else if 0x61 \<le> c \<and> c \<le> 0x66 then c - 0x61 + 10
      else if 0x41 \<le> c \<and> c \<le> 0x46 then c - 0x41 + 10
      else 16)"

definition digitsValue :: "nat \<Rightarrow> jsstring \<Rightarrow> nat" where
  "digitsValue base ds = foldl (\<lambda>a c. a * base + digitValue c) 0 ds"

definition radixLiteral :: "nat \<Rightarrow> jsstring \<Rightarrow> jsnum" where
  "radixLiteral base ds =
     (if ds \<noteq> [] \<and> list_all (\<lambda>c. digitValue c < base) ds
      then Fin (of_nat (digitsValue base ds)) else NaN)"

definition parseExponent :: "jsstring \<Rightarrow> int option" where
  "parseExponent r =
     (if r = [] then Some 0
      else if hd r = 0x65 \<or> hd r = 0x45 then
        (let t = tl r;
             neg = (t \<noteq> [] \<and> hd t = 0x2D);
             ds = (if t \<noteq> [] \<and> (hd t = 0x2B \<or> hd t = 0x2D) then tl t else t)
         in if ds \<noteq> [] \<and> list_all isDigit ds
            then Some ((if neg then - 1 else 1) * int (digitsValue 10 ds)) else None)
      else None)"

definition scale10 :: "nat \<Rightarrow> int \<Rightarrow> rat" where
  "scale10 v k = (if k \<ge> 0 then of_nat v * 10 ^ nat k else of_nat v / 10 ^ nat (- k))"

definition parseUnsigned :: "jsstring \<Rightarrow> jsnum" where
  "parseUnsigned s =
     (if s = str ''Infinity'' then PosInf
      else
        (let ip = takeWhile isDigit s;
             r1 = dropWhile isDigit s;
             dot = (r1 \<noteq> [] \<and> hd r1 = 0x2E);
             fp = (if dot then takeWhile isDigit (tl r1) else []);
             r2 = (if dot then dropWhile isDigit (tl r1) else r1)
         in if ip = [] \<and> fp = [] then NaN
            else (case parseExponent r2 of
                    None \<Rightarrow> NaN
                  | Some e \<Rightarrow> Fin (scale10 (digitsValue 10 (ip @ fp)) (e - int (length fp))))))"

fun jsNeg :: "jsnum \<Rightarrow> jsnum" where
  "jsNeg NaN = NaN"
| "jsNeg NegInf = PosInf"
| "jsNeg (Fin r) = Fin (- r)"
| "jsNeg PosInf = NegInf"

definition parseNumber :: "jsstring \<Rightarrow> jsnum" where
  "parseNumber s =
     (let t = trim s
      in if t = [] then Fin 0
         else if length t \<ge> 2 \<and> hd t = 0x30 \<and> (t ! 1 = 0x78 \<or> t ! 1 = 0x58)
           then radixLiteral 16 (drop 2 t)
         else if length t \<ge> 2 \<and> hd t = 0x30 \<and> (t ! 1 = 0x6F \<or> t ! 1 = 0x4F)
           then radixLiteral 8 (drop 2 t)
         else if length t \<ge> 2 \<and> hd t = 0x30 \<and> (t ! 1 = 0x62 \<or> t ! 1 = 0x42)
           then radixLiteral 2 (drop 2 t)
         else if hd t = 0x2D then jsNeg (parseUnsigned (tl t))
         else if hd t = 0x2B then parseUnsigned (tl t)
         else parseUnsigned t)"

definition asciiLower :: "nat \<Rightarrow> nat" where
  "asciiLower c = (if 0x41 \<le> c \<and> c \<le> 0x5A then c + 0x20 else c)"

definition asciiBuiltins :: builtins where
  "asciiBuiltins =
     \<lparr>StringToNumber = parseNumber,
      toLowerCase = map asciiLower,
      normalizeNFKD = (\<lambda>s. s),
      stripDiacritic = filter (\<lambda>c. c \<noteq> 0x5E \<and> c \<noteq> 0x60)\<rparr>"

section \<open>Auxiliary notions\<close>

text \<open>A string in which no two neighbouring code units are both white space.\<close>

fun singleSpaced :: "jsstring \<Rightarrow> bool" where
  "singleSpaced (x # y # zs) = (\<not> (isWhiteSpace x \<and> isWhiteSpace y) \<and> singleSpaced (y # zs))"
| "singleSpaced _ = True"

section \<open>Concrete inputs\<close>

text \<open>Three albums with one, two and one disc.\<close>

definition scenario1 :: "album list" where
  "scenario1 = [\<lparr>discs = JNum (Fin 1)\<rparr>, \<lparr>discs = JNum (Fin 2)\<rparr>, \<lparr>discs = JNum (Fin 1)\<rparr>]"

text \<open>An album whose \<open>discs\<close> field is the string \<open>"abc"\<close>, followed by an album of one disc.\<close>

definition nonNumeric :: "album list" where
  "nonNumeric = [\<lparr>discs = JStr (str ''abc'')\<rparr>, \<lparr>discs = JNum (Fin 1)\<rparr>]"

text \<open>An entry of the catalogue on the second disc of album 1.\<close>

definition songOnDisc2 :: song where
  "songOnDisc2 = \<lparr>n = str ''come together'', albumIndex = Fin 1, disc = Some (Fin 2)\<rparr>"

text \<open>A query and a title with 3 shared tokens out of 20, no substring and no prefix match.\<close>

definition boundaryQuery :: jsstring where
  "boundaryQuery = str ''a b c d e f g h i j k''"

definition boundarySong :: song where
  "boundarySong = \<lparr>n = str ''a b c l m n o p q r s t'', albumIndex = Fin 0, disc = None\<rparr>"

text \<open>An entry of the catalogue, and a catalogue in which two entries match the query \<open>yesterday\<close> exactly.\<close>

definition abbeyRoad :: song where
  "abbeyRoad = \<lparr>n = str ''Abbey Road'', albumIndex = Fin 1, disc = Some (Fin 1)\<rparr>"

definition tiedCatalog :: "song list" where
  "tiedCatalog =
     [\<lparr>n = str ''Something'', albumIndex = Fin 0, disc = Some (Fin 1)\<rparr>,
      \<lparr>n = str ''Yesterday'', albumIndex = Fin 1, disc = Some (Fin 1)\<rparr>,
      \<lparr>n = str ''yesterday!'', albumIndex = Fin 2, disc = None\<rparr>,
      \<lparr>n = str ''Yesterday, yesterday'', albumIndex = Fin 2, disc = Some (Fin 2)\<rparr>]"

text \<open>Two entries with the same title; each scores exactly 0.15 against \<open>boundaryQuery\<close>.\<close>

definition tiedBelow :: "song list" where
  "tiedBelow = [boundarySong, boundarySong\<lparr>albumIndex := Fin 1\<rparr>]"

section \<open>Properties of the slot map\<close>

subsection \<open>The two loops\<close>

lemma discLoop_step:
  "jsLess (Fin (of_nat j)) d \<Longrightarrow> sl \<le> MAX_SLOTS \<Longrightarrow>
   discLoop d i j (sta, sl) = discLoop d i (Suc j) (arraySet sta sl (int i), Suc sl)"
  by (subst discLoop.simps) simp

lemma discLoop_stop:
  "\<not> (jsLess (Fin (of_nat j)) d \<and> sl \<le> MAX_SLOTS) \<Longrightarrow> discLoop d i j (sta, sl) = (sta, sl)"
  by (subst discLoop.simps) auto

lemma arraySet_length: "k < length xs \<Longrightarrow> length (arraySet xs k v) = length xs"
  by (simp add: arraySet_def)

lemma arraySet_nth_same: "k < length xs \<Longrightarrow> arraySet xs k v ! k = Some v"
  by (simp add: arraySet_def)

lemma arraySet_nth_other: "k < length xs \<Longrightarrow> j \<noteq> k \<Longrightarrow> arraySet xs k v ! j = xs ! j"
  by (simp add: arraySet_def)

lemma discLoop_length:
  "length sta = MAX_SLOTS + 1 \<Longrightarrow> length (fst (discLoop d i j (sta, sl))) = MAX_SLOTS + 1"
proof (induction d i j "(sta, sl)" arbitrary: sta sl rule: discLoop.induct)
  case (1 d i j sta sl)
  show ?case
  proof (cases "jsLess (Fin (of_nat j)) d \<and> sl \<le> MAX_SLOTS")
    case True
    then have "length (arraySet sta sl (int i)) = MAX_SLOTS + 1"
      using "1.prems" by (simp add: arraySet_length)
    with True "1.hyps" show ?thesis by (simp add: discLoop_step)
  next
    case False
    then show ?thesis using "1.prems" by (simp add: discLoop_stop)
  qed
qed

lemma discLoop_cursor_mono: "sl \<le> snd (discLoop d i j (sta, sl))"
proof (induction d i j "(sta, sl)" arbitrary: sta sl rule: discLoop.induct)
  case (1 d i j sta sl)
  show ?case
  proof (cases "jsLess (Fin (of_nat j)) d \<and> sl \<le> MAX_SLOTS")
    case True
    then have "sl + 1 \<le> snd (discLoop d i (j + 1) (arraySet sta sl (int i), sl + 1))"
      using "1.hyps" by simp
    with True show ?thesis by (simp add: discLoop_step)
  next
    case False
    then show ?thesis by (simp add: discLoop_stop)
  qed
qed

lemma discLoop_cursor_bound:
  "sl \<le> MAX_SLOTS + 1 \<Longrightarrow> snd (discLoop d i j (sta, sl)) \<le> MAX_SLOTS + 1"
proof (induction d i j "(sta, sl)" arbitrary: sta sl rule: discLoop.induct)
  case (1 d i j sta sl)
  show ?case
  proof (cases "jsLess (Fin (of_nat j)) d \<and> sl \<le> MAX_SLOTS")
    case True
    then have "snd (discLoop d i (j + 1) (arraySet sta sl (int i), sl + 1)) \<le> MAX_SLOTS + 1"
      using "1.hyps" by simp
    with True show ?thesis by (simp add: discLoop_step)
  next
    case False
    then show ?thesis using "1.prems" by (simp add: discLoop_stop)
  qed
qed

lemma discLoop_below:
  "length sta = MAX_SLOTS + 1 \<Longrightarrow> k < sl \<Longrightarrow> fst (discLoop d i j (sta, sl)) ! k = sta ! k"
proof (induction d i j "(sta, sl)" arbitrary: sta sl rule: discLoop.induct)
  case (1 d i j sta sl)
  show ?case
  proof (cases "jsLess (Fin (of_nat j)) d \<and> sl \<le> MAX_SLOTS")
    case True
    have len: "length (arraySet sta sl (int i)) = MAX_SLOTS + 1"
      using True "1.prems" by (simp add: arraySet_length)
    have "fst (discLoop d i (j + 1) (arraySet sta sl (int i), sl + 1)) ! k
          = arraySet sta sl (int i) ! k"
      using "1.hyps"[OF True len] "1.prems" by simp
    also have "\<dots> = sta ! k"
      using True "1.prems" by (simp add: arraySet_nth_other)
    finally show ?thesis using True by (simp add: discLoop_step)
  next
    case False
    then show ?thesis by (simp add: discLoop_stop)
  qed
qed

lemma discLoop_first:
  assumes "length sta = MAX_SLOTS + 1" "jsLess (Fin (of_nat j)) d" "sl \<le> MAX_SLOTS"
  shows "fst (discLoop d i j (sta, sl)) ! sl = Some (int i) \<and> sl < snd (discLoop d i j (sta, sl))"
proof -
  have len: "length (arraySet sta sl (int i)) = MAX_SLOTS + 1"
    using assms by (simp add: arraySet_length)
  have "fst (discLoop d i (Suc j) (arraySet sta sl (int i), Suc sl)) ! sl = arraySet sta sl (int i) ! sl"
    using discLoop_below[OF len, of sl "Suc sl"] by simp
  moreover have "arraySet sta sl (int i) ! sl = Some (int i)"
    using assms by (simp add: arraySet_nth_same)
  moreover have "Suc sl \<le> snd (discLoop d i (Suc j) (arraySet sta sl (int i), Suc sl))"
    by (rule discLoop_cursor_mono)
  ultimately show ?thesis using assms by (simp add: discLoop_step)
qed

lemma discLoop_full: "MAX_SLOTS < sl \<Longrightarrow> discLoop d i j (sta, sl) = (sta, sl)"
  by (simp add: discLoop_stop)


lemma albumLoop_step:
  "i < length albums \<Longrightarrow>
   albumLoop B albums i (m, sl) =
   albumLoop B albums (Suc i)
     (\<lparr>slotToAlbum = fst (discLoop (discsCount B (albums ! i)) i 0 (slotToAlbum m, sl)),
       albumStartSlot = arraySet (albumStartSlot m) i sl\<rparr>,
      snd (discLoop (discsCount B (albums ! i)) i 0 (slotToAlbum m, sl)))"
  by (subst albumLoop.simps) (simp add: Let_def split: prod.splits)

lemma albumLoop_stop: "\<not> i < length albums \<Longrightarrow> albumLoop B albums i (m, sl) = (m, sl)"
  by (subst albumLoop.simps) simp

text \<open>What the loop keeps: the lengths, the entries below the cursor, the starts of the albums already seen.\<close>

lemma albumLoop_keeps:
  assumes "length (slotToAlbum m) = MAX_SLOTS + 1" "length (albumStartSlot m) = length albums"
  shows "length (slotToAlbum (fst (albumLoop B albums i (m, sl)))) = MAX_SLOTS + 1
       \<and> length (albumStartSlot (fst (albumLoop B albums i (m, sl)))) = length albums
       \<and> (\<forall>k < sl. slotToAlbum (fst (albumLoop B albums i (m, sl))) ! k = slotToAlbum m ! k)
       \<and> (\<forall>k < i. albumStartSlot (fst (albumLoop B albums i (m, sl))) ! k = albumStartSlot m ! k)"
  using assms
proof (induction "length albums - i" arbitrary: i m sl)
  case 0
  then show ?case by (simp add: albumLoop_stop)
next
  case (Suc x)
  then have lt: "i < length albums" by simp
  define d where "d = discsCount B (albums ! i)"
  define r where "r = discLoop d i 0 (slotToAlbum m, sl)"
  define m' where "m' = \<lparr>slotToAlbum = fst r, albumStartSlot = arraySet (albumStartSlot m) i sl\<rparr>"
  have step: "albumLoop B albums i (m, sl) = albumLoop B albums (Suc i) (m', snd r)"
    using lt by (simp add: albumLoop_step m'_def r_def d_def)
  have len1: "length (slotToAlbum m') = MAX_SLOTS + 1"
    using Suc.prems by (simp add: m'_def r_def discLoop_length)
  have len2: "length (albumStartSlot m') = length albums"
    using Suc.prems lt by (simp add: m'_def arraySet_length)
  have x: "x = length albums - Suc i" using Suc.hyps(2) by simp
  note IH = Suc.hyps(1)[OF x len1 len2, of "snd r"]
  have mono: "sl \<le> snd r" by (simp add: r_def discLoop_cursor_mono)
  have below: "\<forall>k < sl. slotToAlbum m' ! k = slotToAlbum m ! k"
    using Suc.prems by (simp add: m'_def r_def discLoop_below)
  have starts: "\<forall>k < i. albumStartSlot m' ! k = albumStartSlot m ! k"
    using Suc.prems lt by (simp add: m'_def arraySet_nth_other)
  show ?case
    unfolding step using IH mono below starts by auto
qed


lemma jsGreaterEq_one_less_zero: "jsGreaterEq d (Fin 1) \<Longrightarrow> jsLess (Fin (of_nat 0)) d"
  by (cases d) auto

lemma albumLoop_starts:
  assumes "length (slotToAlbum m) = MAX_SLOTS + 1" "length (albumStartSlot m) = length albums"
    and "i \<le> k" "k < length albums"
  shows "\<exists>s. albumStartSlot (fst (albumLoop B albums i (m, sl))) ! k = Some s \<and> sl \<le> s
           \<and> (s \<le> MAX_SLOTS \<and> jsGreaterEq (discsCount B (albums ! k)) (Fin 1)
                \<longrightarrow> slotToAlbum (fst (albumLoop B albums i (m, sl))) ! s = Some (int k))"
  using assms
proof (induction "length albums - i" arbitrary: i m sl)
  case 0
  then show ?case by simp
next
  case (Suc x)
  then have lt: "i < length albums" by simp
  define d where "d = discsCount B (albums ! i)"
  define r where "r = discLoop d i 0 (slotToAlbum m, sl)"
  define m' where "m' = \<lparr>slotToAlbum = fst r, albumStartSlot = arraySet (albumStartSlot m) i sl\<rparr>"
  have step: "albumLoop B albums i (m, sl) = albumLoop B albums (Suc i) (m', snd r)"
    using lt by (simp add: albumLoop_step m'_def r_def d_def)
  have len1: "length (slotToAlbum m') = MAX_SLOTS + 1"
    using Suc.prems by (simp add: m'_def r_def discLoop_length)
  have len2: "length (albumStartSlot m') = length albums"
    using Suc.prems lt by (simp add: m'_def arraySet_length)
  have x: "x = length albums - Suc i" using Suc.hyps(2) by simp
  have mono: "sl \<le> snd r" by (simp add: r_def discLoop_cursor_mono)
  note keeps = albumLoop_keeps[OF len1 len2, of B "Suc i" "snd r"]
  show ?case
  proof (cases "k = i")
    case True
    have start: "albumStartSlot (fst (albumLoop B albums (Suc i) (m', snd r))) ! i = Some sl"
      using keeps Suc.prems lt by (simp add: m'_def arraySet_nth_same)
    have entry: "slotToAlbum (fst (albumLoop B albums (Suc i) (m', snd r))) ! sl = Some (int i)"
      if "sl \<le> MAX_SLOTS" "jsGreaterEq d (Fin 1)"
    proof -
      have "jsLess (Fin (of_nat 0)) d" using that(2) by (rule jsGreaterEq_one_less_zero)
      then have first: "fst r ! sl = Some (int i) \<and> sl < snd r"
        unfolding r_def using Suc.prems(1) that(1) by (intro discLoop_first) auto
      then have "slotToAlbum (fst (albumLoop B albums (Suc i) (m', snd r))) ! sl = slotToAlbum m' ! sl"
        using keeps by simp
      then show ?thesis using first by (simp add: m'_def)
    qed
    show ?thesis unfolding step using True start entry by (auto simp: d_def)
  next
    case False
    then have "Suc i \<le> k" using Suc.prems by simp
    from Suc.hyps(1)[OF x len1 len2 this Suc.prems(4), of "snd r"] mono
    show ?thesis unfolding step by auto
  qed
qed

lemma albumLoop_full:
  "MAX_SLOTS < sl \<Longrightarrow> slotToAlbum (fst (albumLoop B albums i (m, sl))) = slotToAlbum m"
proof (induction "length albums - i" arbitrary: i m)
  case 0
  then show ?case by (simp add: albumLoop_stop)
next
  case (Suc x)
  then have lt: "i < length albums" by simp
  have x: "x = length albums - Suc i" using Suc.hyps(2) by simp
  show ?case
    using Suc.hyps(1)[OF x Suc.prems] lt Suc.prems
    by (simp add: albumLoop_step discLoop_full)
qed

lemma initMaps_lengths:
  "length (slotToAlbum (initMaps albums)) = MAX_SLOTS + 1"
  "length (albumStartSlot (initMaps albums)) = length albums"
  by (simp_all add: initMaps_def)

subsection \<open>The start slot of an album maps back to the album\<close>

text \<open>
  Claim C2.  After the construction, every album \<open>i\<close> that received at least one slot (its
  start slot \<open>s\<close> is in \<open>[1, MAX_SLOTS]\<close> and its clamped disc count is at least 1) is
  found again at its start slot: \<open>slotToAlbum[albumStartSlot[i]] == i\<close>.
\<close>

theorem start_slot_maps_back:
  assumes "i < length albums"
    and "arrayGet (albumStartSlot (computeMaps B albums)) i = Some s"
    and "1 \<le> s" "s \<le> MAX_SLOTS"
    and "jsGreaterEq (discsCount B (albums ! i)) (Fin 1)"
  shows "arrayGet (slotToAlbum (computeMaps B albums)) s = Some (int i)"
proof -
  let ?r = "albumLoop B albums 0 (initMaps albums, 1)"
  from albumLoop_starts[OF initMaps_lengths, where i = 0 and k = i and B = B and sl = 1] assms(1)
  obtain t where t: "albumStartSlot (fst ?r) ! i = Some t"
    "t \<le> MAX_SLOTS \<and> jsGreaterEq (discsCount B (albums ! i)) (Fin 1)
       \<longrightarrow> slotToAlbum (fst ?r) ! t = Some (int i)"
    by auto
  have len: "length (slotToAlbum (fst ?r)) = MAX_SLOTS + 1"
    "length (albumStartSlot (fst ?r)) = length albums"
    using albumLoop_keeps[OF initMaps_lengths, where B = B and i = 0 and sl = 1] by simp_all
  have "t = s" using assms(1,2) t(1) len by (simp add: computeMaps_def arrayGet_def)
  then show ?thesis using t(2) assms(4,5) len by (simp add: computeMaps_def arrayGet_def)
qed

theorem start_slot_maps_back_witness:
  "1 < length scenario1
   \<and> arrayGet (albumStartSlot (computeMaps asciiBuiltins scenario1)) 1 = Some 2
   \<and> (1::nat) \<le> 2 \<and> 2 \<le> MAX_SLOTS
   \<and> jsGreaterEq (discsCount asciiBuiltins (scenario1 ! 1)) (Fin 1)
   \<and> arrayGet (slotToAlbum (computeMaps asciiBuiltins scenario1)) 2 = Some (int 1)"
proof -
  have h1: "1 < length scenario1" by code_simp
  have h2: "arrayGet (albumStartSlot (computeMaps asciiBuiltins scenario1)) 1 = Some 2" by code_simp
  have h3: "(1::nat) \<le> 2" by simp
  have h4: "2 \<le> MAX_SLOTS" by code_simp
  have h5: "jsGreaterEq (discsCount asciiBuiltins (scenario1 ! 1)) (Fin 1)" by code_simp
  from start_slot_maps_back[OF h1 h2 h3 h4 h5] h1 h2 h3 h4 h5 show ?thesis by simp
qed

subsection \<open>The constructed maps\<close>

lemma computeMaps_lengths:
  "length (slotToAlbum (computeMaps B albums)) = MAX_SLOTS + 1"
  "length (albumStartSlot (computeMaps B albums)) = length albums"
  using albumLoop_keeps[OF initMaps_lengths, where B = B and i = 0 and sl = 1]
  by (simp_all add: computeMaps_def)

lemma computeMaps_slot0:
  "slotToAlbum (computeMaps B albums) ! 0 = slotToAlbum (initMaps albums) ! 0"
  using albumLoop_keeps[OF initMaps_lengths, where B = B and i = 0 and sl = 1]
  by (simp add: computeMaps_def)

lemma arrayGetNum_of_nat: "arrayGetNum xs (Fin (of_nat k)) = arrayGet xs k"
  by simp

lemma computeMaps_start:
  assumes "k < length albums"
  shows "\<exists>s. arrayGet (albumStartSlot (computeMaps B albums)) k = Some s \<and> 1 \<le> s"
proof -
  from albumLoop_starts[where m = "initMaps albums" and albums = albums and i = 0 and k = k and B = B
      and sl = 1, OF initMaps_lengths]
    assms
  obtain s where "albumStartSlot (computeMaps B albums) ! k = Some s" "1 \<le> s"
    unfolding computeMaps_def by auto
  then show ?thesis using assms by (simp add: arrayGet_def computeMaps_lengths)
qed

lemma arrayGetNum_Some_nat:
  assumes "arrayGetNum xs x = Some v"
  shows "\<exists>k. x = Fin (of_nat k) \<and> arrayGet xs k = Some v"
proof (cases x)
  case (Fin r)
  with assms have r: "0 \<le> r" "r = of_int \<lfloor>r\<rfloor>" "arrayGet xs (nat \<lfloor>r\<rfloor>) = Some v"
    by (auto split: if_splits)
  then have "0 \<le> \<lfloor>r\<rfloor>" by simp
  then have "of_nat (nat \<lfloor>r\<rfloor>) = (of_int \<lfloor>r\<rfloor> :: rat)" by simp
  with r Fin show ?thesis by metis
qed (use assms in auto)

text \<open>
  What the clamp returns: 1 for a missing or falsy field, and otherwise either \<open>NaN\<close> or a
  value between 1 and 2.  With \<open>NaN\<close> the inner loop does not run.
\<close>

lemma discsCount_falsy: "\<not> truthy (discs a) \<Longrightarrow> discsCount B a = Fin 1"
  by (simp add: discsCount_def jsOr_def mathMax_def mathMin_def)

lemma discsCount_range:
  "discsCount B a = NaN \<or> (\<exists>r. discsCount B a = Fin r \<and> 1 \<le> r \<and> r \<le> 2)"
  by (cases "Number B (jsOr (discs a) (JNum (Fin 1)))")
     (auto simp: discsCount_def mathMax_def mathMin_def)

lemma discsCount_NaN:
  "s \<noteq> [] \<Longrightarrow> StringToNumber B s = NaN \<Longrightarrow> discs a = JStr s \<Longrightarrow> discsCount B a = NaN"
  by (simp add: discsCount_def jsOr_def mathMax_def mathMin_def)

lemma discLoop_NaN: "discLoop NaN i j (sta, sl) = (sta, sl)"
  by (simp add: discLoop_stop)

subsection \<open>A non-numeric disc count\<close>

text \<open>
  Claim C1.  The claim says that an album whose \<open>discs\<close> field is a non-numeric string
  counts as one disc and takes exactly one slot.  In the code \<open>"abc" || 1\<close> is \<open>"abc"\<close>,
  \<open>Number("abc")\<close> is \<open>NaN\<close>, and \<open>Math.max\<close> and \<open>Math.min\<close> return \<open>NaN\<close>; the test
  \<open>j < discs\<close> is false at once.  The album gets start slot 1 and no slot: the cursor
  stays at 1, the next album starts at slot 1 as well, and slot 1 maps to that next album.
\<close>

theorem non_numeric_discs_takes_no_slot:
  "discsCount asciiBuiltins (nonNumeric ! 0) = NaN
   \<and> snd (albumLoop asciiBuiltins (take 1 nonNumeric) 0 (initMaps (take 1 nonNumeric), 1)) = 1
   \<and> arrayGet (albumStartSlot (computeMaps asciiBuiltins nonNumeric)) 0 = Some 1
   \<and> arrayGet (albumStartSlot (computeMaps asciiBuiltins nonNumeric)) 1 = Some 1
   \<and> arrayGet (slotToAlbum (computeMaps asciiBuiltins nonNumeric)) 1 = Some 1
   \<and> arrayGet (slotToAlbum (computeMaps asciiBuiltins nonNumeric)) 2 = Some (- 1)"
  by code_simp

subsection \<open>Overflow of the slot range\<close>

text \<open>
  Claim C4.  Once the cursor is past \<open>MAX_SLOTS\<close>, the loop over the remaining albums
  writes nothing into \<open>slotToAlbum\<close>.  The constructed array keeps its length
  \<open>MAX_SLOTS + 1\<close>, and it differs from the freshly filled one only at slots in
  \<open>[1, MAX_SLOTS]\<close>.  The construction returns its maps for every album list; no error
  is part of its result.
\<close>

theorem overflow_writes_nothing:
  "(MAX_SLOTS < sl \<longrightarrow> slotToAlbum (fst (albumLoop B albums i (m, sl))) = slotToAlbum m)
   \<and> length (slotToAlbum (computeMaps B albums)) = MAX_SLOTS + 1
   \<and> (\<forall>k. arrayGet (slotToAlbum (computeMaps B albums)) k
            \<noteq> arrayGet (slotToAlbum (initMaps albums)) k \<longrightarrow> 1 \<le> k \<and> k \<le> MAX_SLOTS)"
proof (intro conjI allI impI)
  assume "MAX_SLOTS < sl"
  then show "slotToAlbum (fst (albumLoop B albums i (m, sl))) = slotToAlbum m"
    by (rule albumLoop_full)
next
  show "length (slotToAlbum (computeMaps B albums)) = MAX_SLOTS + 1"
    by (rule computeMaps_lengths)
next
  fix k
  assume neq: "arrayGet (slotToAlbum (computeMaps B albums)) k
                 \<noteq> arrayGet (slotToAlbum (initMaps albums)) k"
  show "1 \<le> k"
  proof (rule ccontr)
    assume "\<not> 1 \<le> k"
    then have "k = 0" by simp
    with neq show False
      by (simp add: arrayGet_def computeMaps_lengths initMaps_lengths computeMaps_slot0)
  qed
  show "k \<le> MAX_SLOTS"
  proof (rule ccontr)
    assume "\<not> k \<le> MAX_SLOTS"
    with neq show False
      by (simp add: arrayGet_def computeMaps_lengths initMaps_lengths)
  qed
qed

theorem overflow_writes_nothing_witness:
  "MAX_SLOTS < 101
   \<and> slotToAlbum (fst (albumLoop asciiBuiltins scenario1 0 (initMaps scenario1, 101)))
       = slotToAlbum (initMaps scenario1)
   \<and> arrayGet (slotToAlbum (computeMaps asciiBuiltins scenario1)) 4
       \<noteq> arrayGet (slotToAlbum (initMaps scenario1)) 4
   \<and> (1::nat) \<le> 4 \<and> 4 \<le> MAX_SLOTS"
proof -
  have h1: "MAX_SLOTS < 101" by code_simp
  have h2: "arrayGet (slotToAlbum (computeMaps asciiBuiltins scenario1)) 4
       \<noteq> arrayGet (slotToAlbum (initMaps scenario1)) 4" by code_simp
  from overflow_writes_nothing[of 101 asciiBuiltins scenario1 0 "initMaps scenario1"] h1 h2
  show ?thesis by blast
qed

subsection \<open>Start slots are positive\<close>

text \<open>
  Claim C10.  The construction writes the cursor into \<open>albumStartSlot[k]\<close> for every album
  \<open>k\<close>, so the entry is at least 1 and never the fill value 0, also for an album past the
  slot range.  Hence \<open>computePlatzForSong\<close>, on an entry whose \<open>albumIndex\<close> is a valid
  index, returns a slot that is a number and at least 1, never \<open>null\<close>.
\<close>

theorem start_slot_positive:
  assumes "k < length albums"
  shows "(\<exists>s. arrayGet (albumStartSlot (computeMaps B albums)) k = Some s \<and> 1 \<le> s)
       \<and> (albumIndex sg = Fin (of_nat k) \<longrightarrow>
            (\<exists>p. slot (computePlatzForSong B albums (computeMaps B albums) sg) = Some p \<and> 1 \<le> p))"
proof (intro conjI impI)
  show st: "\<exists>s. arrayGet (albumStartSlot (computeMaps B albums)) k = Some s \<and> 1 \<le> s"
    using assms by (rule computeMaps_start)
  assume idx: "albumIndex sg = Fin (of_nat k)"
  from st obtain s where s: "arrayGet (albumStartSlot (computeMaps B albums)) k = Some s" "1 \<le> s"
    by blast
  have al: "arrayGet (map Some albums) k = Some (albums ! k)"
    using assms by (simp add: arrayGet_def)
  have "1 \<le> min (s + 1) MAX_SLOTS" by (simp add: MAX_SLOTS_def)
  then show "\<exists>p. slot (computePlatzForSong B albums (computeMaps B albums) sg) = Some p \<and> 1 \<le> p"
    using s al idx
    by (simp add: computePlatzForSong_def Let_def arrayGetNum_of_nat del: arrayGetNum.simps)
qed

theorem start_slot_positive_witness:
  "1 < length scenario1
   \<and> arrayGet (albumStartSlot (computeMaps asciiBuiltins scenario1)) 1 = Some 2
   \<and> albumIndex songOnDisc2 = Fin (of_nat 1)
   \<and> slot (computePlatzForSong asciiBuiltins scenario1 (computeMaps asciiBuiltins scenario1) songOnDisc2)
       = Some 3"
proof -
  have h1: "1 < length scenario1" by code_simp
  have h2: "albumIndex songOnDisc2 = Fin (of_nat 1)" by code_simp
  have e1: "arrayGet (albumStartSlot (computeMaps asciiBuiltins scenario1)) 1 = Some 2" by code_simp
  have e2: "slot (computePlatzForSong asciiBuiltins scenario1 (computeMaps asciiBuiltins scenario1) songOnDisc2)
       = Some 3" by code_simp
  from start_slot_positive[OF h1, of asciiBuiltins songOnDisc2] h1 h2 e1 e2
  show ?thesis by simp
qed

subsection \<open>An entry on disc 2\<close>

text \<open>
  Claim C5.  For an entry with \<open>disc == 2\<close> and a valid album index \<open>k\<close>, on the
  constructed maps, with \<open>start = albumStartSlot[k]\<close>: if the clamped disc count of the
  album is at least 2 the result is \<open>min(start + 1, MAX_SLOTS)\<close> and not approximate;
  otherwise it is \<open>start\<close>, flagged approximate.  In both cases the slot is a number.
\<close>

theorem disc_two_resolution:
  assumes "k < length albums" "albumIndex sg = Fin (of_nat k)" "disc sg = Some (Fin 2)"
  shows "\<exists>start. arrayGet (albumStartSlot (computeMaps B albums)) k = Some start
     \<and> computePlatzForSong B albums (computeMaps B albums) sg =
        (if jsGreaterEq (discsCount B (albums ! k)) (Fin 2)
         then \<lparr>slot = Some (min (start + 1) MAX_SLOTS), approx = False\<rparr>
         else \<lparr>slot = Some start, approx = True\<rparr>)"
proof -
  from computeMaps_start[OF assms(1), of B] obtain start where
    st: "arrayGet (albumStartSlot (computeMaps B albums)) k = Some start" by blast
  have al: "arrayGet (map Some albums) k = Some (albums ! k)"
    using assms(1) by (simp add: arrayGet_def)
  have "computePlatzForSong B albums (computeMaps B albums) sg =
        (if jsGreaterEq (discsCount B (albums ! k)) (Fin 2)
         then \<lparr>slot = Some (min (start + 1) MAX_SLOTS), approx = False\<rparr>
         else \<lparr>slot = Some start, approx = True\<rparr>)"
    using assms(2,3) al st
    by (simp add: computePlatzForSong_def Let_def arrayGetNum_of_nat del: arrayGetNum.simps)
  with st show ?thesis by blast
qed

theorem disc_two_resolution_witness:
  "1 < length scenario1 \<and> albumIndex songOnDisc2 = Fin (of_nat 1) \<and> disc songOnDisc2 = Some (Fin 2)
   \<and> arrayGet (albumStartSlot (computeMaps asciiBuiltins scenario1)) 1 = Some 2
   \<and> jsGreaterEq (discsCount asciiBuiltins (scenario1 ! 1)) (Fin 2)
   \<and> computePlatzForSong asciiBuiltins scenario1 (computeMaps asciiBuiltins scenario1) songOnDisc2
       = \<lparr>slot = Some 3, approx = False\<rparr>"
proof -
  have h1: "1 < length scenario1" by code_simp
  have h2: "albumIndex songOnDisc2 = Fin (of_nat 1)" by code_simp
  have h3: "disc songOnDisc2 = Some (Fin 2)" by code_simp
  have h4: "arrayGet (albumStartSlot (computeMaps asciiBuiltins scenario1)) 1 = Some 2" by code_simp
  have h5: "jsGreaterEq (discsCount asciiBuiltins (scenario1 ! 1)) (Fin 2)" by code_simp
  have h6: "min (2 + 1) MAX_SLOTS = 3" by code_simp
  from disc_two_resolution[OF h1 h2 h3, of asciiBuiltins] h1 h2 h3 h4 h5 h6
  show ?thesis by simp
qed

subsection \<open>The slot jump\<close>

text \<open>
  Claim C9.  On the constructed maps the jump handler returns no slide when its argument
  is not finite, below 1 or above \<open>MAX_SLOTS\<close>, and when the slot holds the fill value
  \<open>-1\<close> (no album was assigned to it); it returns a slide only for an integer slot in
  \<open>[1, MAX_SLOTS]\<close> that holds an album index.  In particular 0 and 101 give no slide.
  The handler is a total function: the array is read only inside its bounds.
\<close>

theorem jump_returns_unassigned:
  "(\<not> isFinite x \<or> jsLess x (Fin 1) \<or> jsLess (Fin (of_nat MAX_SLOTS)) x
      \<longrightarrow> goBtnClick (computeMaps B albums) x = None)
   \<and> (arrayGetNum (slotToAlbum (computeMaps B albums)) x = Some (- 1)
      \<longrightarrow> goBtnClick (computeMaps B albums) x = None)
   \<and> (goBtnClick (computeMaps B albums) x = Some p
      \<longrightarrow> (\<exists>k. x = Fin (of_nat k) \<and> 1 \<le> k \<and> k \<le> MAX_SLOTS
               \<and> arrayGet (slotToAlbum (computeMaps B albums)) k = Some p \<and> 0 \<le> p))
   \<and> goBtnClick (computeMaps B albums) (Fin 0) = None
   \<and> goBtnClick (computeMaps B albums) (Fin 101) = None"
proof (intro conjI impI)
  assume "\<not> isFinite x \<or> jsLess x (Fin 1) \<or> jsLess (Fin (of_nat MAX_SLOTS)) x"
  then show "goBtnClick (computeMaps B albums) x = None"
    by (simp add: goBtnClick_def)
next
  assume "arrayGetNum (slotToAlbum (computeMaps B albums)) x = Some (- 1)"
  then show "goBtnClick (computeMaps B albums) x = None"
    by (simp add: goBtnClick_def)
next
  assume some: "goBtnClick (computeMaps B albums) x = Some p"
  then have rng: "isFinite x" "\<not> jsLess x (Fin 1)" "\<not> jsLess (Fin (of_nat MAX_SLOTS)) x"
    and rd: "arrayGetNum (slotToAlbum (computeMaps B albums)) x = Some p" and pos: "0 \<le> p"
    by (auto simp: goBtnClick_def split: if_splits option.splits)
  from arrayGetNum_Some_nat[OF rd] obtain k where
    k: "x = Fin (of_nat k)" "arrayGet (slotToAlbum (computeMaps B albums)) k = Some p"
    by blast
  have "1 \<le> k" "k \<le> MAX_SLOTS" using rng k(1) by simp_all
  with k pos show "\<exists>k. x = Fin (of_nat k) \<and> 1 \<le> k \<and> k \<le> MAX_SLOTS
               \<and> arrayGet (slotToAlbum (computeMaps B albums)) k = Some p \<and> 0 \<le> p"
    by blast
next
  show "goBtnClick (computeMaps B albums) (Fin 0) = None"
    by (simp add: goBtnClick_def)
  show "goBtnClick (computeMaps B albums) (Fin 101) = None"
    by (simp add: goBtnClick_def MAX_SLOTS_def)
qed

theorem jump_returns_unassigned_witness:
  "\<not> isFinite NaN
   \<and> goBtnClick (computeMaps asciiBuiltins scenario1) NaN = None
   \<and> arrayGetNum (slotToAlbum (computeMaps asciiBuiltins scenario1)) (Fin 5) = Some (- 1)
   \<and> goBtnClick (computeMaps asciiBuiltins scenario1) (Fin 5) = None
   \<and> goBtnClick (computeMaps asciiBuiltins scenario1) (Fin 3) = Some 1
   \<and> arrayGet (slotToAlbum (computeMaps asciiBuiltins scenario1)) 3 = Some 1"
proof -
  have h1: "\<not> isFinite NaN" by simp
  have h2: "arrayGetNum (slotToAlbum (computeMaps asciiBuiltins scenario1)) (Fin 5) = Some (- 1)"
    by code_simp
  have h3: "goBtnClick (computeMaps asciiBuiltins scenario1) (Fin 3) = Some 1" by code_simp
  have h4: "arrayGet (slotToAlbum (computeMaps asciiBuiltins scenario1)) 3 = Some 1" by code_simp
  from jump_returns_unassigned[of NaN asciiBuiltins scenario1]
  have a: "goBtnClick (computeMaps asciiBuiltins scenario1) NaN = None" using h1 by blast
  from jump_returns_unassigned[of "Fin 5" asciiBuiltins scenario1]
  have b: "goBtnClick (computeMaps asciiBuiltins scenario1) (Fin 5) = None" using h2 by blast
  from a b h1 h2 h3 h4 show ?thesis by simp
qed

section \<open>Properties of the song search\<close>

subsection \<open>The result of \<open>norm\<close>\<close>

lemma isPlain_space: "isPlain 0x20"
  by (simp add: isPlain_def)

lemma isWhiteSpace_space: "isWhiteSpace 0x20"
  by (simp add: isWhiteSpace_def)

lemma plain_white_is_space: "isPlain c \<Longrightarrow> isWhiteSpace c \<Longrightarrow> c = 0x20"
  by (auto simp: isPlain_def isWhiteSpace_def)

lemma replacePunct_plain: "list_all isPlain (replacePunct s)"
  by (induction s) (simp_all add: replacePunct_def isPlain_space)

lemma replacePunct_id: "list_all isPlain s \<Longrightarrow> replacePunct s = s"
  by (simp add: replacePunct_def list_all_iff map_idI)

lemma collapseSpace_plain: "list_all isPlain s \<Longrightarrow> list_all isPlain (collapseSpace s)"
proof (induction s rule: collapseSpace.induct)
  case 1
  then show ?case by simp
next
  case (2 c cs)
  have "list_all isPlain (dropWhile isWhiteSpace cs)"
    using "2.prems" by (auto simp: list_all_iff dest: set_dropWhileD)
  with 2 show ?case by (simp add: isPlain_space)
qed

lemma collapseSpace_hd:
  "s \<noteq> [] \<Longrightarrow> \<not> isWhiteSpace (hd s) \<Longrightarrow> collapseSpace s = hd s # collapseSpace (tl s)"
  by (cases s) simp_all

lemma singleSpaced_Cons:
  "xs = [] \<or> \<not> isWhiteSpace (hd xs) \<or> \<not> isWhiteSpace x \<Longrightarrow>
   singleSpaced (x # xs) = singleSpaced xs"
  by (cases xs) auto

lemma collapseSpace_single: "singleSpaced (collapseSpace s)"
proof (induction s rule: collapseSpace.induct)
  case 1
  then show ?case by simp
next
  case (2 c cs)
  show ?case
  proof (cases "isWhiteSpace c")
    case True
    let ?d = "dropWhile isWhiteSpace cs"
    have "collapseSpace ?d = [] \<or> \<not> isWhiteSpace (hd (collapseSpace ?d))"
    proof (cases "?d = []")
      case True
      have "collapseSpace ?d = []" by (simp only: True collapseSpace.simps(1))
      then show ?thesis by (rule disjI1)
    next
      case False
      then have "\<not> isWhiteSpace (hd ?d)" by (rule hd_dropWhile)
      with False show ?thesis by (simp add: collapseSpace_hd)
    qed
    then have "singleSpaced (0x20 # collapseSpace ?d) = singleSpaced (collapseSpace ?d)"
      by (intro singleSpaced_Cons) auto
    with True "2.IH"(1) show ?thesis by simp
  next
    case False
    then have "singleSpaced (c # collapseSpace cs) = singleSpaced (collapseSpace cs)"
      by (intro singleSpaced_Cons) auto
    with False "2.IH"(2) show ?thesis by simp
  qed
qed

lemma singleSpaced_append: "singleSpaced (a @ b) \<Longrightarrow> singleSpaced a \<and> singleSpaced b"
proof (induction a rule: singleSpaced.induct)
  fix v
  assume "singleSpaced ([v] @ b)"
  then show "singleSpaced [v] \<and> singleSpaced b" by (cases b) auto
qed simp_all

lemma trim_decompose: "\<exists>a b. s = a @ trim s @ b"
proof -
  let ?d = "dropWhile isWhiteSpace s"
  have "s = takeWhile isWhiteSpace s @ ?d" by simp
  moreover have "rev ?d = takeWhile isWhiteSpace (rev ?d) @ dropWhile isWhiteSpace (rev ?d)" by simp
  then have "?d = trim s @ rev (takeWhile isWhiteSpace (rev ?d))"
    unfolding trim_def by (metis rev_append rev_rev_ident)
  ultimately show ?thesis by metis
qed

lemma trim_single: "singleSpaced s \<Longrightarrow> singleSpaced (trim s)"
proof -
  assume s: "singleSpaced s"
  obtain a b where "s = a @ trim s @ b" using trim_decompose by blast
  with s have "singleSpaced (a @ trim s @ b)" by simp
  then show ?thesis using singleSpaced_append by blast
qed

lemma trim_plain: "list_all isPlain s \<Longrightarrow> list_all isPlain (trim s)"
proof -
  assume s: "list_all isPlain s"
  obtain a b where "s = a @ trim s @ b" using trim_decompose by blast
  with s have "list_all isPlain (a @ trim s @ b)" by simp
  then show ?thesis by simp
qed

lemma trim_ends:
  "trim s = [] \<or> (\<not> isWhiteSpace (hd (trim s)) \<and> \<not> isWhiteSpace (last (trim s)))"
proof (cases "trim s = []")
  case True
  then show ?thesis by simp
next
  case False
  let ?a = "dropWhile isWhiteSpace s"
  let ?b = "dropWhile isWhiteSpace (rev ?a)"
  have t: "trim s = rev ?b" by (simp add: trim_def)
  with False have b: "?b \<noteq> []" by simp
  have a: "?a \<noteq> []"
  proof
    assume "?a = []"
    then have "?b = []" by (simp only: rev.simps dropWhile.simps)
    with b show False by simp
  qed
  have "\<not> isWhiteSpace (hd ?b)" using b by (rule hd_dropWhile)
  then have last: "\<not> isWhiteSpace (last (trim s))" by (simp add: t last_rev)
  have "rev ?a = takeWhile isWhiteSpace (rev ?a) @ ?b" by simp
  then have "last (rev ?a) = last ?b" using b by (metis last_appendR)
  then have "hd ?a = last ?b" by (simp add: last_rev)
  moreover have "\<not> isWhiteSpace (hd ?a)" using a by (rule hd_dropWhile)
  ultimately have "\<not> isWhiteSpace (hd (trim s))" by (simp add: t hd_rev)
  with last show ?thesis by simp
qed

lemma trim_id:
  "t = [] \<or> (\<not> isWhiteSpace (hd t) \<and> \<not> isWhiteSpace (last t)) \<Longrightarrow> trim t = t"
proof (cases "t = []")
  case True
  then show ?thesis by (simp add: trim_def)
next
  case False
  assume "t = [] \<or> (\<not> isWhiteSpace (hd t) \<and> \<not> isWhiteSpace (last t))"
  with False have e: "\<not> isWhiteSpace (hd t)" "\<not> isWhiteSpace (hd (rev t))"
    by (simp_all add: hd_rev)
  have "dropWhile isWhiteSpace t = t" using e(1) by (simp add: dropWhile_eq_self_iff)
  moreover have "dropWhile isWhiteSpace (rev t) = rev t"
    using e(2) by (simp only: dropWhile_eq_self_iff) simp
  ultimately show ?thesis by (simp add: trim_def)
qed

lemma collapseSpace_id:
  "list_all isPlain t \<Longrightarrow> singleSpaced t \<Longrightarrow> t = [] \<or> \<not> isWhiteSpace (last t) \<Longrightarrow>
   collapseSpace t = t"
proof (induction t rule: collapseSpace.induct)
  case 1
  then show ?case by simp
next
  case (2 c cs)
  show ?case
  proof (cases "isWhiteSpace c")
    case True
    with "2.prems" have c: "c = 0x20" by (simp add: plain_white_is_space)
    from True "2.prems"(3) have ne: "cs \<noteq> []" by auto
    then obtain y ys where cs: "cs = y # ys" by (cases cs) auto
    with True "2.prems"(2) have y: "\<not> isWhiteSpace y" by simp
    then have d: "dropWhile isWhiteSpace cs = cs" by (simp add: cs)
    have "collapseSpace cs = cs"
      using "2.IH"(1)[OF True] "2.prems" ne d cs by simp
    with True c d show ?thesis by simp
  next
    case False
    have "collapseSpace cs = cs"
    proof (cases "cs = []")
      case True
      then show ?thesis by simp
    next
      case ne: False
      then obtain y ys where cs: "cs = y # ys" by (cases cs) auto
      show ?thesis using "2.IH"(2)[OF False] "2.prems" cs by simp
    qed
    with False show ?thesis by simp
  qed
qed

lemma normalised_fixed:
  assumes "list_all isPlain u"
  defines "t \<equiv> trim (collapseSpace u)"
  shows "list_all isPlain t \<and> trim (collapseSpace (replacePunct t)) = t"
proof -
  have p: "list_all isPlain t" unfolding t_def using assms(1) by (intro trim_plain collapseSpace_plain)
  have s: "singleSpaced t" unfolding t_def by (intro trim_single collapseSpace_single)
  have e: "t = [] \<or> (\<not> isWhiteSpace (hd t) \<and> \<not> isWhiteSpace (last t))"
    unfolding t_def by (rule trim_ends)
  then have "collapseSpace t = t" using p s by (intro collapseSpace_id) auto
  moreover have "trim t = t" using e by (rule trim_id)
  ultimately show ?thesis using p by (simp add: replacePunct_id)
qed

text \<open>The ASCII instance of the built-ins leaves a string over \<open>[a-z0-9 ]\<close> as it is.\<close>

lemma asciiBuiltins_plain:
  assumes "list_all isPlain t"
  shows "toLowerCase asciiBuiltins t = t" "normalizeNFKD asciiBuiltins t = t"
    "stripDiacritic asciiBuiltins t = t"
proof -
  have "map asciiLower t = t"
    using assms by (intro map_idI) (auto simp: list_all_iff isPlain_def asciiLower_def)
  then show "toLowerCase asciiBuiltins t = t" by (simp add: asciiBuiltins_def)
  show "normalizeNFKD asciiBuiltins t = t" by (simp add: asciiBuiltins_def)
  have "filter (\<lambda>c. c \<noteq> 0x5E \<and> c \<noteq> 0x60) t = t"
    using assms by (intro filter_True) (auto simp: list_all_iff isPlain_def)
  then show "stripDiacritic asciiBuiltins t = t" by (simp add: asciiBuiltins_def)
qed

subsection \<open>Normalising twice\<close>

text \<open>
  Claim C8.  \<open>norm\<close> is idempotent.  The three steps of \<open>norm\<close> that consult the Unicode
  tables (lower-casing, NFKD, removal of diacritics) are parameters; what is used of
  them is that they leave a string over \<open>[a-z0-9 ]\<close> unchanged, which holds of the
  platform's functions.  The result of \<open>norm\<close> is such a string, single-spaced and with no
  white space at either end, and the three replacements of \<open>norm\<close> leave it as it is.
\<close>

theorem norm_idempotent:
  assumes "\<And>t. list_all isPlain t \<Longrightarrow> toLowerCase B t = t"
    and "\<And>t. list_all isPlain t \<Longrightarrow> normalizeNFKD B t = t"
    and "\<And>t. list_all isPlain t \<Longrightarrow> stripDiacritic B t = t"
  shows "norm B (norm B s) = norm B s"
proof -
  define u where "u = replacePunct (stripDiacritic B (normalizeNFKD B (toLowerCase B s)))"
  have fixed: "list_all isPlain (norm B s) \<and> trim (collapseSpace (replacePunct (norm B s))) = norm B s"
    using normalised_fixed[of u] by (simp add: u_def norm_def replacePunct_plain)
  then have "stripDiacritic B (normalizeNFKD B (toLowerCase B (norm B s))) = norm B s"
    using assms by simp
  then have "norm B (norm B s) = trim (collapseSpace (replacePunct (norm B s)))"
    by (simp add: norm_def[of B "norm B s"])
  with fixed show ?thesis by simp
qed

theorem norm_idempotent_witness:
  "norm asciiBuiltins (norm asciiBuiltins (str ''  Abbey  Road! ^x'')) =
     norm asciiBuiltins (str ''  Abbey  Road! ^x'')
   \<and> norm asciiBuiltins (str ''  Abbey  Road! ^x'') = str ''abbey road x''"
proof -
  have e: "norm asciiBuiltins (str ''  Abbey  Road! ^x'') = str ''abbey road x''" by code_simp
  from norm_idempotent[of asciiBuiltins "str ''  Abbey  Road! ^x''", OF asciiBuiltins_plain] e
  show ?thesis by simp
qed

subsection \<open>The range of the score\<close>

lemma foldl_setAdd:
  "distinct acc \<Longrightarrow>
   distinct (foldl setAdd acc xs) \<and> set (foldl setAdd acc xs) = set acc \<union> set xs"
proof (induction xs arbitrary: acc)
  case Nil
  then show ?case by simp
next
  case (Cons x xs)
  have "distinct (setAdd acc x)" "set (setAdd acc x) = insert x (set acc)"
    using Cons.prems by (auto simp: setAdd_def)
  with Cons.IH[of "setAdd acc x"] show ?case by auto
qed

lemma newSet_distinct: "distinct (newSet xs)"
  using foldl_setAdd[of "[]" xs] by (simp add: newSet_def)

lemma newSet_set: "set (newSet xs) = set xs"
  using foldl_setAdd[of "[]" xs] by (simp add: newSet_def)

lemma newSet_length: "length (newSet xs) = card (set xs)"
  using distinct_card[OF newSet_distinct, of xs] by (simp add: newSet_set)

lemma overlap_le_union:
  assumes "distinct tq"
  shows "length (filter (\<lambda>t. t \<in> set tc) tq) \<le> length (newSet (tq @ tc))"
proof -
  have "length (filter (\<lambda>t. t \<in> set tc) tq) \<le> length tq" by simp
  also have "\<dots> = card (set tq)" using assms by (simp add: distinct_card)
  also have "\<dots> \<le> card (set tq \<union> set tc)" by (intro card_mono) auto
  also have "\<dots> = length (newSet (tq @ tc))" by (simp add: newSet_length)
  finally show ?thesis .
qed

lemma ratio_bounds:
  assumes "i \<le> u"
  shows "0 \<le> (of_nat i :: rat) / of_nat (if u = 0 then 1 else u)"
    and "(of_nat i :: rat) / of_nat (if u = 0 then 1 else u) \<le> 1"
  using assms by (auto simp: divide_le_eq_1)

text \<open>The token overlap is a number between 0 and 1.\<close>

lemma jaccard_bounds:
  fixes xs ys :: "jsstring list"
  defines "j \<equiv> (of_nat (length (filter (\<lambda>t. t \<in> set (newSet ys)) (newSet xs))) :: rat)
                  / of_nat (let u = length (newSet (newSet xs @ newSet ys)) in if u = 0 then 1 else u)"
  shows "0 \<le> j" "j \<le> 1"
proof -
  have "length (filter (\<lambda>t. t \<in> set (newSet ys)) (newSet xs))
          \<le> length (newSet (newSet xs @ newSet ys))"
    by (intro overlap_le_union newSet_distinct)
  from ratio_bounds[OF this] show "0 \<le> j" "j \<le> 1" by (simp_all add: j_def Let_def)
qed

text \<open>The score as a sum of its three contributions.\<close>

lemma fuzzyScore_sum:
  "\<exists>a j p. (a = 0 \<or> a = 1) \<and> 0 \<le> j \<and> j \<le> 1 \<and> (p = 0 \<or> p = 1 / 4)
     \<and> fuzzyScore B q c =
         (if norm B q = [] \<or> norm B c = [] then 0
          else if norm B q = norm B c then 3 else a + j + p)"
proof -
  define a :: rat where
    "a = (if includes_str (norm B c) (norm B q) \<or> includes_str (norm B q) (norm B c) then 1 else 0)"
  define j :: rat where
    "j = of_nat (length (filter (\<lambda>t. t \<in> set (newSet (split (norm B c))))
                           (newSet (split (norm B q)))))
         / of_nat (let u = length (newSet (newSet (split (norm B q)) @ newSet (split (norm B c))))
                   in if u = 0 then 1 else u)"
  define p :: rat where "p = (if startsWith (norm B c) (norm B q) then 1 / 4 else 0)"
  have "fuzzyScore B q c =
         (if norm B q = [] \<or> norm B c = [] then 0
          else if norm B q = norm B c then 3 else a + j + p)"
    by (simp add: fuzzyScore_def Let_def a_def j_def p_def)
  moreover have "0 \<le> j" "j \<le> 1" unfolding j_def by (rule jaccard_bounds)+
  moreover have "a = 0 \<or> a = 1" "p = 0 \<or> p = 1 / 4" by (simp_all add: a_def p_def)
  ultimately show ?thesis by blast
qed

lemma fuzzyScore_range:
  "fuzzyScore B q c = 3 \<or> (0 \<le> fuzzyScore B q c \<and> fuzzyScore B q c \<le> 9 / 4)"
proof -
  from fuzzyScore_sum[of B q c] obtain a j p :: rat where
    h: "a = 0 \<or> a = 1" "0 \<le> j" "j \<le> 1" "p = 0 \<or> p = 1 / 4"
    and f: "fuzzyScore B q c =
         (if norm B q = [] \<or> norm B c = [] then 0
          else if norm B q = norm B c then 3 else a + j + p)"
    by blast
  have "0 \<le> a + j + p" "a + j + p \<le> 9 / 4" using h by auto
  then show ?thesis unfolding f by simp
qed

lemma fuzzyScore_nonneg: "0 \<le> fuzzyScore B q c"
  using fuzzyScore_range[of B q c] by auto

subsection \<open>The exact match\<close>

text \<open>
  Claim C3.  \<open>fuzzyScore(q, c)\<close> is 3 exactly when the two normalised strings are equal
  and not empty.  Every other score is at most \<open>1 + 1 + 0.25 = 2.25\<close>, so it is below 3:
  no sum of the substring, token-overlap and prefix contributions reaches the exact match.
\<close>

theorem exact_match_score:
  "(fuzzyScore B q c = 3) = (norm B q = norm B c \<and> norm B q \<noteq> [])
   \<and> (fuzzyScore B q c = 3 \<or> fuzzyScore B q c \<le> 9 / 4)"
proof (intro conjI)
  show "fuzzyScore B q c = 3 \<or> fuzzyScore B q c \<le> 9 / 4"
    using fuzzyScore_range[of B q c] by auto
  from fuzzyScore_sum[of B q c] obtain a j p :: rat where
    h: "a = 0 \<or> a = 1" "0 \<le> j" "j \<le> 1" "p = 0 \<or> p = 1 / 4"
    and f: "fuzzyScore B q c =
         (if norm B q = [] \<or> norm B c = [] then 0
          else if norm B q = norm B c then 3 else a + j + p)"
    by blast
  have "a + j + p \<noteq> 3" using h by auto
  then show "(fuzzyScore B q c = 3) = (norm B q = norm B c \<and> norm B q \<noteq> [])"
    unfolding f by auto
qed

theorem exact_match_score_witness:
  "fuzzyScore asciiBuiltins (str ''Abbey Road'') (str ''abbey  road!'') = 3
   \<and> norm asciiBuiltins (str ''Abbey Road'') = norm asciiBuiltins (str ''abbey  road!'')
   \<and> norm asciiBuiltins (str ''Abbey Road'') \<noteq> []
   \<and> fuzzyScore asciiBuiltins (str ''a b'') (str ''a b a'') = 9 / 4
   \<and> norm asciiBuiltins (str ''a b'') \<noteq> norm asciiBuiltins (str ''a b a'')"
proof -
  have e1: "norm asciiBuiltins (str ''Abbey Road'') = norm asciiBuiltins (str ''abbey  road!'')"
    by code_simp
  have e2: "norm asciiBuiltins (str ''Abbey Road'') \<noteq> []" by code_simp
  have e3: "fuzzyScore asciiBuiltins (str ''a b'') (str ''a b a'') = 9 / 4" by code_simp
  from exact_match_score[of asciiBuiltins "str ''Abbey Road''" "str ''abbey  road!''"] e1 e2
  have a: "fuzzyScore asciiBuiltins (str ''Abbey Road'') (str ''abbey  road!'') = 3" by simp
  have b: "norm asciiBuiltins (str ''a b'') \<noteq> norm asciiBuiltins (str ''a b a'')" by code_simp
  from a b e1 e2 e3 show ?thesis by simp
qed

subsection \<open>The loop over the catalogue\<close>

lemma bestStep_keep: "score q (n s) \<le> snd acc \<Longrightarrow> bestStep score q acc s = acc"
  by (simp add: bestStep_def Let_def)

lemma bestStep_take: "snd acc < score q (n s) \<Longrightarrow>
  bestStep score q acc s = (Some s, score q (n s))"
  by (simp add: bestStep_def Let_def)

text \<open>Entries that do not score above the current best leave it as it is.\<close>

lemma foldl_bestStep_keep:
  "\<forall>s \<in> set xs. score q (n s) \<le> snd acc \<Longrightarrow> foldl (bestStep score q) acc xs = acc"
  by (induction xs arbitrary: acc) (simp_all add: bestStep_keep)

text \<open>The best score after the loop bounds the initial one and every score seen.\<close>

lemma foldl_bestStep_upper:
  "snd acc \<le> snd (foldl (bestStep score q) acc xs)
   \<and> (\<forall>s \<in> set xs. score q (n s) \<le> snd (foldl (bestStep score q) acc xs))"
proof (induction xs arbitrary: acc)
  case Nil
  then show ?case by simp
next
  case (Cons x xs)
  have "snd acc \<le> snd (bestStep score q acc x)" "score q (n x) \<le> snd (bestStep score q acc x)"
    by (simp_all add: bestStep_def Let_def)
  with Cons.IH[of "bestStep score q acc x"] show ?case by auto
qed

text \<open>While every score stays below a bound, so does the best score.\<close>

lemma foldl_bestStep_below:
  "snd acc < v \<Longrightarrow> \<forall>s \<in> set xs. score q (n s) < v \<Longrightarrow>
   snd (foldl (bestStep score q) acc xs) < v"
proof (induction xs arbitrary: acc)
  case Nil
  then show ?case by simp
next
  case (Cons x xs)
  have "snd (bestStep score q acc x) < v"
    using Cons.prems by (simp add: bestStep_def Let_def)
  with Cons.IH[of "bestStep score q acc x"] Cons.prems show ?case by simp
qed

text \<open>The best score is the initial one or the score of an entry; with no best entry it is the initial one.\<close>

lemma foldl_bestStep_attained:
  "snd (foldl (bestStep score q) acc xs) = snd acc
   \<or> (\<exists>s \<in> set xs. snd (foldl (bestStep score q) acc xs) = score q (n s))"
proof (induction xs arbitrary: acc)
  case Nil
  then show ?case by simp
next
  case (Cons x xs)
  have "snd (bestStep score q acc x) = snd acc \<or> snd (bestStep score q acc x) = score q (n x)"
    by (simp add: bestStep_def Let_def)
  with Cons.IH[of "bestStep score q acc x"] show ?case by auto
qed

lemma foldl_bestStep_Some:
  "fst acc \<noteq> None \<Longrightarrow> fst (foldl (bestStep score q) acc xs) \<noteq> None"
proof (induction xs arbitrary: acc)
  case Nil
  then show ?case by simp
next
  case (Cons x xs)
  have "fst (bestStep score q acc x) \<noteq> None"
    using Cons.prems by (simp add: bestStep_def Let_def)
  with Cons.IH[of "bestStep score q acc x"] show ?case by simp
qed

lemma foldl_bestStep_None:
  "fst (foldl (bestStep score q) acc xs) = None \<Longrightarrow> snd (foldl (bestStep score q) acc xs) = snd acc"
proof (induction xs arbitrary: acc)
  case Nil
  then show ?case by simp
next
  case (Cons x xs)
  show ?case
  proof (cases "snd acc < score q (n x)")
    case True
    then have "fst (bestStep score q acc x) \<noteq> None" by (simp add: bestStep_take)
    then have "fst (foldl (bestStep score q) (bestStep score q acc x) xs) \<noteq> None"
      by (rule foldl_bestStep_Some)
    with Cons.prems show ?thesis by simp
  next
    case False
    then have "bestStep score q acc x = acc" by (simp add: bestStep_keep)
    with Cons show ?thesis by simp
  qed
qed

lemma findBestSongWith_unfold:
  "findBestSongWith score cutoff SONGS q =
     (if snd (foldl (bestStep score q) (None, 0) SONGS) > cutoff
      then fst (foldl (bestStep score q) (None, 0) SONGS) else None)"
  by (simp add: findBestSongWith_def split: prod.splits)

lemma findBestSong_unfold:
  "findBestSong B SONGS q =
     (if snd (foldl (bestStep (fuzzyScore B) q) (None, 0) SONGS) > 15 / 100
      then fst (foldl (bestStep (fuzzyScore B) q) (None, 0) SONGS) else None)"
  by (simp add: findBestSong_def findBestSongWith_unfold)

text \<open>The score of the boundary example.\<close>

lemma boundary_score:
  "fuzzyScore asciiBuiltins boundaryQuery (n boundarySong) = 15 / 100"
  by code_simp

subsection \<open>The threshold\<close>

text \<open>
  Claim C6.  \<open>findBestSong\<close> returns \<open>null\<close> exactly when no entry of the catalogue scores
  above 0.15, that is when the maximum score is at most 0.15.  For a catalogue of one
  entry: a score of exactly 0.15 gives \<open>null\<close>, a score above 0.15 gives the entry.
\<close>

theorem no_match_threshold:
  "(findBestSong B SONGS q = None) = (\<forall>s \<in> set SONGS. fuzzyScore B q (n s) \<le> 15 / 100)
   \<and> findBestSong B [s] q = (if fuzzyScore B q (n s) > 15 / 100 then Some s else None)"
proof (intro conjI)
  let ?r = "foldl (bestStep (fuzzyScore B) q) (None, 0) SONGS"
  note upper = foldl_bestStep_upper[of "(None, 0)" "fuzzyScore B" q SONGS]
  show "(findBestSong B SONGS q = None) = (\<forall>s \<in> set SONGS. fuzzyScore B q (n s) \<le> 15 / 100)"
  proof
    assume none: "findBestSong B SONGS q = None"
    have "snd ?r \<le> 15 / 100"
    proof (rule ccontr)
      assume "\<not> snd ?r \<le> 15 / 100"
      then have gt: "snd ?r > 15 / 100" by simp
      with none have "fst ?r = None" by (simp add: findBestSong_unfold)
      then have "snd ?r = 0" using foldl_bestStep_None[of "fuzzyScore B" q "(None, 0)" SONGS] by simp
      with gt show False by simp
    qed
    with upper show "\<forall>s \<in> set SONGS. fuzzyScore B q (n s) \<le> 15 / 100" by fastforce
  next
    assume all: "\<forall>s \<in> set SONGS. fuzzyScore B q (n s) \<le> 15 / 100"
    from foldl_bestStep_attained[of "fuzzyScore B" q "(None, 0)" SONGS] all
    have "snd ?r \<le> 15 / 100" by auto
    then show "findBestSong B SONGS q = None" by (simp add: findBestSong_unfold)
  qed
  show "findBestSong B [s] q = (if fuzzyScore B q (n s) > 15 / 100 then Some s else None)"
    using fuzzyScore_nonneg[of B q "n s"]
    by (auto simp: findBestSong_unfold bestStep_def Let_def)
qed

theorem no_match_threshold_witness:
  "fuzzyScore asciiBuiltins boundaryQuery (n boundarySong) = 15 / 100
   \<and> findBestSong asciiBuiltins [boundarySong] boundaryQuery = None
   \<and> fuzzyScore asciiBuiltins (str ''abby road'') (n abbeyRoad) = 1 / 3
   \<and> findBestSong asciiBuiltins [abbeyRoad] (str ''abby road'') = Some abbeyRoad"
proof -
  have e1: "fuzzyScore asciiBuiltins boundaryQuery (n boundarySong) = 15 / 100"
    by (rule boundary_score)
  have e2: "fuzzyScore asciiBuiltins (str ''abby road'') (n abbeyRoad) = 1 / 3" by code_simp
  from no_match_threshold[of asciiBuiltins "[boundarySong]" boundaryQuery] e1
  have a: "findBestSong asciiBuiltins [boundarySong] boundaryQuery = None" by simp
  from no_match_threshold[of asciiBuiltins "[]" "str ''abby road''" abbeyRoad] e2
  have b: "findBestSong asciiBuiltins [abbeyRoad] (str ''abby road'') = Some abbeyRoad" by simp
  from a b e1 e2 show ?thesis by simp
qed

subsection \<open>Ties\<close>

text \<open>
  Claim C7, amended.  Whatever the score function and the cut-off (not negative) are:
  when the entry at index \<open>i\<close> reaches the maximum score, every entry before it scores
  strictly less, and the maximum is above the cut-off, the function returns the entry at
  index \<open>i\<close>, the first entry with the maximum score.  A later entry with an equal or
  lower score does not replace it.  This holds in particular of the scores as the page
  computes them, in doubles, and of its cut-off 0.15.  Without the condition on the
  cut-off the statement fails, as the example after the theorem shows.
\<close>

theorem first_maximum_wins:
  assumes "i < length SONGS"
    and "\<forall>j < length SONGS. score q (n (SONGS ! j)) \<le> score q (n (SONGS ! i))"
    and "\<forall>j < i. score q (n (SONGS ! j)) < score q (n (SONGS ! i))"
    and "score q (n (SONGS ! i)) > cutoff" and "0 \<le> cutoff"
  shows "findBestSongWith score cutoff SONGS q = Some (SONGS ! i)"
proof -
  let ?v = "score q (n (SONGS ! i))"
  let ?pre = "foldl (bestStep score q) (None, 0) (take i SONGS)"
  have split: "SONGS = take i SONGS @ SONGS ! i # drop (Suc i) SONGS"
    using assms(1) by (simp add: id_take_nth_drop)
  have "\<forall>s \<in> set (take i SONGS). score q (n s) < ?v"
    using assms(1,3) by (auto simp: in_set_conv_nth)
  moreover have "snd (None :: song option, 0 :: rat) < ?v" using assms(4,5) by simp
  ultimately have "snd ?pre < ?v" by (intro foldl_bestStep_below)
  then have at_i: "bestStep score q ?pre (SONGS ! i) = (Some (SONGS ! i), ?v)"
    by (rule bestStep_take)
  have "\<forall>s \<in> set (drop (Suc i) SONGS). score q (n s) \<le> snd (Some (SONGS ! i), ?v)"
    using assms(2) by (auto simp: in_set_conv_nth)
  then have rest: "foldl (bestStep score q) (Some (SONGS ! i), ?v) (drop (Suc i) SONGS)
                = (Some (SONGS ! i), ?v)"
    by (rule foldl_bestStep_keep)
  have "foldl (bestStep score q) (None, 0) SONGS
        = foldl (bestStep score q) (bestStep score q ?pre (SONGS ! i)) (drop (Suc i) SONGS)"
    by (subst split) simp
  then have "foldl (bestStep score q) (None, 0) SONGS = (Some (SONGS ! i), ?v)"
    by (simp add: at_i rest)
  then show ?thesis using assms(4) by (simp add: findBestSongWith_unfold)
qed

theorem first_maximum_wins_witness:
  "fuzzyScore asciiBuiltins (str ''yesterday'') (n (tiedCatalog ! 0)) = 0
   \<and> fuzzyScore asciiBuiltins (str ''yesterday'') (n (tiedCatalog ! 1)) = 3
   \<and> fuzzyScore asciiBuiltins (str ''yesterday'') (n (tiedCatalog ! 2)) = 3
   \<and> fuzzyScore asciiBuiltins (str ''yesterday'') (n (tiedCatalog ! 3)) = 9 / 4
   \<and> findBestSongWith (fuzzyScore asciiBuiltins) (15 / 100) tiedCatalog (str ''yesterday'')
       = Some (tiedCatalog ! 1)
   \<and> findBestSong asciiBuiltins tiedCatalog (str ''yesterday'') = Some (tiedCatalog ! 1)
   \<and> tiedCatalog ! 1 \<noteq> tiedCatalog ! 2"
proof -
  have s0: "fuzzyScore asciiBuiltins (str ''yesterday'') (n (tiedCatalog ! 0)) = 0" by code_simp
  have s1: "fuzzyScore asciiBuiltins (str ''yesterday'') (n (tiedCatalog ! 1)) = 3" by code_simp
  have s2: "fuzzyScore asciiBuiltins (str ''yesterday'') (n (tiedCatalog ! 2)) = 3" by code_simp
  have s3: "fuzzyScore asciiBuiltins (str ''yesterday'') (n (tiedCatalog ! 3)) = 9 / 4" by code_simp
  have len: "length tiedCatalog = 4" by code_simp
  have h1: "1 < length tiedCatalog" by (simp add: len)
  have h2: "\<forall>j < length tiedCatalog. fuzzyScore asciiBuiltins (str ''yesterday'') (n (tiedCatalog ! j))
             \<le> fuzzyScore asciiBuiltins (str ''yesterday'') (n (tiedCatalog ! 1))"
    using s0 s1 s2 s3 by (simp add: len less_Suc_eq numeral_eq_Suc)
  have h3: "\<forall>j < 1. fuzzyScore asciiBuiltins (str ''yesterday'') (n (tiedCatalog ! j))
             < fuzzyScore asciiBuiltins (str ''yesterday'') (n (tiedCatalog ! 1))"
    using s0 s1 by simp
  have h4: "fuzzyScore asciiBuiltins (str ''yesterday'') (n (tiedCatalog ! 1)) > 15 / 100"
    using s1 by simp
  have h5: "(0 :: rat) \<le> 15 / 100" by simp
  have d: "tiedCatalog ! 1 \<noteq> tiedCatalog ! 2" by code_simp
  have r: "findBestSongWith (fuzzyScore asciiBuiltins) (15 / 100) tiedCatalog (str ''yesterday'')
       = Some (tiedCatalog ! 1)"
    by (rule first_maximum_wins[where score = "fuzzyScore asciiBuiltins" and q = "str ''yesterday''"
          and SONGS = tiedCatalog and i = 1 and cutoff = "15 / 100", OF h1 h2 h3 h4 h5])
  then have "findBestSong asciiBuiltins tiedCatalog (str ''yesterday'') = Some (tiedCatalog ! 1)"
    by (simp add: findBestSong_def)
  with r s0 s1 s2 s3 d show ?thesis by simp
qed

text \<open>
  Claim C7 as stated, for every catalogue in which several entries reach the maximum:
  in \<open>tiedBelow\<close> both entries reach the maximum score 0.15, and \<open>findBestSong\<close> returns
  \<open>null\<close>, not the first of them, because of the cut-off \<open>bestScore > 0.15\<close>.
\<close>

theorem tie_below_threshold_counterexample:
  "fuzzyScore asciiBuiltins boundaryQuery (n (tiedBelow ! 0)) = 15 / 100
   \<and> fuzzyScore asciiBuiltins boundaryQuery (n (tiedBelow ! 1)) = 15 / 100
   \<and> findBestSong asciiBuiltins tiedBelow boundaryQuery = None
   \<and> findBestSong asciiBuiltins tiedBelow boundaryQuery \<noteq> Some (tiedBelow ! 0)"
proof -
  have s0: "fuzzyScore asciiBuiltins boundaryQuery (n (tiedBelow ! 0)) = 15 / 100"
    by (simp add: tiedBelow_def boundary_score)
  have s1: "fuzzyScore asciiBuiltins boundaryQuery (n (tiedBelow ! 1)) = 15 / 100"
    by (simp add: tiedBelow_def boundary_score)
  have r: "findBestSong asciiBuiltins tiedBelow boundaryQuery = None"
    by (simp add: findBestSong_unfold tiedBelow_def bestStep_def Let_def boundary_score)
  from s0 s1 r show ?thesis by simp
qed

end
